theory Spec2Isabelle
  imports Main
begin

section \<open>Python strings\<close>

text \<open>
  A Python \<open>str\<close> is a sequence of Unicode code points. The model keeps the code points
  below 256 (the Latin-1 block), one \<open>char\<close> each, so every string of the model is a
  Python string and \<open>length\<close> counts what \<open>len\<close> counts. The three character
  classes below are Python's own tables, cut down to that block.
\<close>

definition isspace :: "char \<Rightarrow> bool" where
  \<comment> \<open>\<open>c.isspace()\<close>: what \<open>str.strip()\<close> removes and \<open>int()\<close> ignores at both ends\<close>
  "isspace c = (let n = (of_char c :: nat) in
     (9 \<le> n \<and> n \<le> 13) \<or> (28 \<le> n \<and> n \<le> 32) \<or> n = 133 \<or> n = 160)"

definition isalpha :: "char \<Rightarrow> bool" where
  \<comment> \<open>\<open>c.isalpha()\<close>: the general categories Lu, Ll, Lt, Lm and Lo\<close>
  "isalpha c = (let n = (of_char c :: nat) in
     (65 \<le> n \<and> n \<le> 90) \<or> (97 \<le> n \<and> n \<le> 122) \<or> n = 170 \<or> n = 181 \<or> n = 186 \<or>
     (192 \<le> n \<and> n \<le> 214) \<or> (216 \<le> n \<and> n \<le> 246) \<or> (248 \<le> n \<and> n \<le> 255))"

definition upper_is_self :: "char \<Rightarrow> bool" where
  \<comment> \<open>\<open>c.upper() == c\<close>: false exactly for the letters that have another upper-case form
      (a to z, the micro sign, sharp s, and the accented small letters)\<close>
  "upper_is_self c = (let n = (of_char c :: nat) in
     \<not> ((97 \<le> n \<and> n \<le> 122) \<or> n = 181 \<or> (223 \<le> n \<and> n \<le> 246) \<or> (248 \<le> n \<and> n \<le> 255)))"

definition isupper :: "char \<Rightarrow> bool" where
  \<comment> \<open>\<open>c.isupper()\<close>, the upper-case letters: what the specification calls "uppercase"\<close>
  "isupper c = (let n = (of_char c :: nat) in
     (65 \<le> n \<and> n \<le> 90) \<or> (192 \<le> n \<and> n \<le> 214) \<or> (216 \<le> n \<and> n \<le> 222))"

definition strip :: "string \<Rightarrow> string" where
  \<comment> \<open>\<open>s.strip()\<close>\<close>
  "strip s = rev (dropWhile isspace (rev (dropWhile isspace s)))"

fun join :: "string \<Rightarrow> string list \<Rightarrow> string" where
  \<comment> \<open>\<open>sep.join(xs)\<close>\<close>
  "join sep [] = []"
| "join sep [x] = x"
| "join sep (x # y # ys) = x @ sep @ join sep (y # ys)"

fun split_max :: "char \<Rightarrow> nat \<Rightarrow> string \<Rightarrow> string list" where
  \<comment> \<open>\<open>s.split(sep, maxsplit)\<close> for a separator of one character\<close>
  "split_max sep 0 s = [s]"
| "split_max sep (Suc n) s =
     (if sep \<in> set s
      then takeWhile (\<lambda>c. c \<noteq> sep) s # split_max sep n (tl (dropWhile (\<lambda>c. c \<noteq> sep) s))
      else [s])"

definition split_all :: "char \<Rightarrow> string \<Rightarrow> string list" where
  \<comment> \<open>\<open>s.split(sep)\<close>: there are never more separators than characters\<close>
  "split_all sep s = split_max sep (length s) s"

section \<open>Decimal integers\<close>

definition isdigit :: "char \<Rightarrow> bool" where
  "isdigit c = (let n = (of_char c :: nat) in 48 \<le> n \<and> n \<le> 57)"

definition digit_val :: "char \<Rightarrow> nat" where
  "digit_val c = of_char c - 48"

definition digit_char :: "nat \<Rightarrow> char" where
  "digit_char d = char_of (48 + d)"

fun str_nat :: "nat \<Rightarrow> string" where
  "str_nat n = (if n < 10 then [digit_char n] else str_nat (n div 10) @ [digit_char (n mod 10)])"

declare str_nat.simps [simp del]

definition str_int :: "int \<Rightarrow> string" where
  \<comment> \<open>\<open>str(n)\<close> for an \<open>int\<close>\<close>
  "str_int n = (if n < 0 then CHR ''-'' # str_nat (nat (- n)) else str_nat (nat n))"

definition int_digits_ok :: "string \<Rightarrow> bool" where
  \<comment> \<open>the digit part of an \<open>int()\<close> literal in base 10: digits, with single underscores
      allowed between two digits\<close>
  "int_digits_ok s = (s \<noteq> [] \<and> hd s \<noteq> CHR ''_'' \<and> last s \<noteq> CHR ''_'' \<and>
     list_all (\<lambda>c. isdigit c \<or> c = CHR ''_'') s \<and>
     (CHR ''_'', CHR ''_'') \<notin> set (zip s (tl s)))"

definition digits_value :: "string \<Rightarrow> nat" where
  "digits_value s = foldl (\<lambda>a c. 10 * a + digit_val c) 0 (filter isdigit s)"

definition int_space :: "char \<Rightarrow> bool" where
  \<comment> \<open>the whitespace that \<open>int()\<close> skips at both ends of its argument: tab to carriage
      return and the space, and beyond ASCII the whitespace it first turns into a space
      (next line, no-break space); not the separators 28 to 31, which \<open>strip()\<close> removes\<close>
  "int_space c = (let n = (of_char c :: nat) in
     (9 \<le> n \<and> n \<le> 13) \<or> n = 32 \<or> n = 133 \<or> n = 160)"

definition int_strip :: "string \<Rightarrow> string" where
  "int_strip s = rev (dropWhile int_space (rev (dropWhile int_space s)))"

definition int_py :: "string \<Rightarrow> int option" where
  \<comment> \<open>\<open>int(s)\<close>; \<open>None\<close> where Python raises ValueError\<close>
  "int_py s = (let t = int_strip s;
                   neg = (t \<noteq> [] \<and> hd t = CHR ''-'');
                   body = (if t \<noteq> [] \<and> (hd t = CHR ''-'' \<or> hd t = CHR ''+'') then tl t else t)
               in if int_digits_ok body
                  then Some (if neg then - int (digits_value body) else int (digits_value body))
                  else None)"

section \<open>Matches and the filter of similar matches\<close>

record match =
  path :: string
  line_nr :: int
  col_nr :: int
  content :: string

definition similar :: "bool \<Rightarrow> match \<Rightarrow> match \<Rightarrow> bool" where
  \<comment> \<open>the two \<open>continue\<close> branches of the loop body of \<open>remove_similar_matches\<close>\<close>
  "similar ignore_adjacents prev_match this_match =
     (path this_match = path prev_match \<and>
      (line_nr this_match = line_nr prev_match \<or>
       (ignore_adjacents \<and> line_nr this_match = line_nr prev_match + 1)))"

definition yielded :: "match list \<Rightarrow> bool \<Rightarrow> nat list" where
  \<comment> \<open>the positions of the input list that \<open>remove_similar_matches\<close> yields, in order:
      position 0 if there is one, then each \<open>i\<close> of \<open>range(1, len(matches))\<close> that reaches
      the \<open>yield\<close>\<close>
  "yielded matches ignore_adjacents =
     (if matches \<noteq> [] then [0] else []) @
     filter (\<lambda>i. \<not> similar ignore_adjacents (matches ! (i - 1)) (matches ! i))
       [1 ..< length matches]"

definition remove_similar_matches :: "match list \<Rightarrow> bool \<Rightarrow> match list" where
  "remove_similar_matches matches ignore_adjacents =
     map (\<lambda>i. matches ! i) (yielded matches ignore_adjacents)"

definition within :: "nat \<Rightarrow> nat \<Rightarrow> nat list \<Rightarrow> nat list" where
  \<comment> \<open>the yielded positions that lie among the \<open>k\<close> positions starting at \<open>s\<close>\<close>
  "within s k ps = filter (\<lambda>i. s \<le> i \<and> i < s + k) ps"

definition m_at :: "string \<Rightarrow> int \<Rightarrow> match" where
  \<comment> \<open>a match at a path and line, for the examples\<close>
  "m_at p l = \<lparr>path = p, line_nr = l, col_nr = 1, content = ''x''\<rparr>"

section \<open>Errors, settings and the outside world\<close>

text \<open>
  The source defines no exception class. Each constructor below is one place where the
  code raises, named by the Python class and what it carries:
  \<^item> \<open>ValueError_stderr\<close>: \<open>raise ValueError(error)\<close> in \<open>search\<close>, with the stripped stderr
    (the specification calls it SearchEngineError);
  \<^item> \<open>ValueError_too_few\<close>: \<open>raise ValueError(f'Too few ...')\<close> in \<open>search\<close>, with the message
    (MalformedMatchError in the specification);
  \<^item> \<open>ValueError_int\<close>: raised by \<open>int(parts[1])\<close> or \<open>int(parts[2])\<close>, with the rejected text;
  \<^item> \<open>IndexError_string\<close>: raised by \<open>query[0]\<close> in \<open>search_for_haskell_defns\<close>
    (EmptyQueryError in the specification);
  \<^item> \<open>IndexError_list\<close>: raised by \<open>folders[0]\<close> in \<open>search\<close>;
  \<^item> \<open>KeyError\<close>: a missing key of a match dictionary, with the key;
  \<^item> \<open>Raised_by_run\<close>: whatever \<open>subprocess.run\<close> raised itself (a timeout, a missing
    executable), with its description.
\<close>

datatype exn =
    ValueError_stderr string
  | ValueError_too_few string
  | ValueError_int string
  | IndexError_string
  | IndexError_list
  | KeyError string
  | Raised_by_run string

record settings =
  engine_name :: string
  executable_path :: string
  required_args :: "string list"

record completed_process =
  returncode :: int
  stdout :: string
  stderr :: string

text \<open>
  \<open>subprocess.run(cmd, cwd=...)\<close> is the one call that leaves the program: it is a
  parameter, from the command line and the working directory to what the call raised or
  returned. The world keeps what the program did: the lines it printed and the processes
  it started.
\<close>

type_synonym runner = "string list \<Rightarrow> string \<Rightarrow> string + completed_process"

record world =
  printed :: "string list"
  invoked :: "(string list \<times> string) list"

definition engines_needing_error_output :: "string set" where
  "engines_needing_error_output = {''ripgrep'', ''the_platinum_searcher'', ''the_silver_searcher''}"

section \<open>search\<close>

definition parse_line :: "string \<Rightarrow> exn + match" where
  \<comment> \<open>the loop body of \<open>search\<close> after the test for a blank line\<close>
  "parse_line line =
     (let parts = split_max (CHR '':'') 3 line in
      if length parts < 4
      then Inl (ValueError_too_few (''Too few colon-separated section in match: '' @ line))
      else case int_py (parts ! 1) of
             None \<Rightarrow> Inl (ValueError_int (parts ! 1))
           | Some l \<Rightarrow>
              (case int_py (parts ! 2) of
                 None \<Rightarrow> Inl (ValueError_int (parts ! 2))
               | Some c \<Rightarrow>
                  Inr \<lparr>path = strip (parts ! 0), line_nr = l, col_nr = c, content = parts ! 3\<rparr>))"

fun parse_lines :: "string list \<Rightarrow> exn + match list" where
  \<comment> \<open>\<open>for line in output.split("\n")\<close>, the generator read to its end\<close>
  "parse_lines [] = Inr []"
| "parse_lines (line # rest) =
     (if strip line = [] then parse_lines rest
      else case parse_line line of
             Inl e \<Rightarrow> Inl e
           | Inr m \<Rightarrow> (case parse_lines rest of Inl e \<Rightarrow> Inl e | Inr ms \<Rightarrow> Inr (m # ms)))"

definition is_error :: "settings \<Rightarrow> completed_process \<Rightarrow> bool" where
  "is_error cfg cp =
     (if engine_name cfg \<in> engines_needing_error_output
      then returncode cp \<noteq> 0 \<and> strip (stderr cp) \<noteq> []
      else returncode cp \<noteq> 0)"

definition search ::
  "settings \<Rightarrow> runner \<Rightarrow> string \<Rightarrow> string list \<Rightarrow> world \<Rightarrow> (exn + match list) \<times> world" where
  "search cfg run query folders w =
     (if strip query = [] then (Inr [], w)
      else
        let cmd = [executable_path cfg] @ required_args cfg @ [query] @ folders;
            w1 = w\<lparr>printed := printed w @ [''Running: '' @ join '' '' cmd]\<rparr>
        in case folders of
             [] \<Rightarrow> (Inl IndexError_list, w1)
           | cwd # _ \<Rightarrow>
              (let w2 = w1\<lparr>invoked := invoked w1 @ [(cmd, cwd)]\<rparr> in
               case run cmd cwd of
                 Inl e \<Rightarrow> (Inl (Raised_by_run e), w2)
               | Inr cp \<Rightarrow>
                  if is_error cfg cp then (Inl (ValueError_stderr (strip (stderr cp))), w2)
                  else (parse_lines (split_all (CHR 0x0A) (strip (stdout cp))), w2)))"

definition render_location :: "match \<Rightarrow> string" where
  "render_location m = join '':'' [path m, str_int (line_nr m), str_int (col_nr m)]"

definition render_raw_line :: "match \<Rightarrow> string" where
  \<comment> \<open>the specification's raw line \<open>path:lineNr:colNr:content\<close> of a match; the source has
      no function for it, \<open>render_location\<close> gives its first three fields\<close>
  "render_raw_line m = render_location m @ '':'' @ content m"

section \<open>search\_for\_haskell\_defns\<close>

definition bs :: string where
  \<comment> \<open>a backslash\<close>
  "bs = [CHR 0x5C]"

definition type_queries :: "string \<Rightarrow> (string \<times> string) list" where
  \<comment> \<open>the list \<open>queries\<close> of the first branch\<close>
  "type_queries query =
     (let first_constructor_query =
            ''(data|newtype) .+'' @ bs @ ''s* ='' @ bs @ ''s* '' @ query @ bs @ ''s'';
          later_constructor_query = bs @ ''|'' @ bs @ ''s* '' @ query @ bs @ ''s''
      in [(''Module'', ''^module +('' @ query @ '')'' @ bs @ ''s''),
          (''Type definition'',
           ''^(data|newtype|type)'' @ bs @ ''s+'' @ query @ ''('' @ bs @ ''s+[a-z]+)*'' @ bs @
           ''s+(=|where)'' @ bs @ ''s''),
          (''Class definition'',
           ''^class'' @ bs @ ''s+([a-zA-Z'' @ bs @ ''s.'' @ bs @ ''('' @ bs @ ''),]+=>'' @ bs @
           ''s+)?'' @ query @ ''('' @ bs @ ''s+[a-z]+)*'' @ bs @ ''s+where'' @ bs @ ''s''),
          (''Constructor'',
           ''('' @ first_constructor_query @ '')|('' @ later_constructor_query @ '')'')])"

definition value_queries :: "string \<Rightarrow> (string \<times> string) list" where
  \<comment> \<open>the list \<open>queries\<close> of the second branch\<close>
  "value_queries query =
     [(''Value type'', ''^ *('' @ query @ '')'' @ bs @ ''s+::'' @ bs @ ''s+.''),
      (''Value definition'',
       ''^ *('' @ query @ '')'' @ bs @ ''s+[^=$]*'' @ bs @ ''s='' @ bs @ ''s''),
      (''Record getter'', '' +[{,] +('' @ query @ '')'' @ bs @ ''s+::'' @ bs @ ''s+'')]"

definition queries_for :: "string \<Rightarrow> exn + (string \<times> string) list" where
  \<comment> \<open>from the stripped query to \<open>queries\<close>; \<open>query[0]\<close> raises on the empty string\<close>
  "queries_for query =
     (case query of
        [] \<Rightarrow> Inl IndexError_string
      | c # _ \<Rightarrow> Inr (if isalpha c \<and> upper_is_self c then type_queries query
                     else value_queries query))"

fun run_queries ::
  "settings \<Rightarrow> runner \<Rightarrow> (string \<times> string) list \<Rightarrow> string list \<Rightarrow> match list \<Rightarrow> world \<Rightarrow>
   (exn + match list) \<times> world" where
  \<comment> \<open>\<open>for _, sub_query in queries: matches.extend(search(sub_query, folders))\<close>\<close>
  "run_queries cfg run [] folders matches w = (Inr matches, w)"
| "run_queries cfg run ((label, sub_query) # rest) folders matches w =
     (case search cfg run sub_query folders w of
        (Inl e, w') \<Rightarrow> (Inl e, w')
      | (Inr sub_query_matches, w') \<Rightarrow>
          run_queries cfg run rest folders (matches @ sub_query_matches) w')"

definition search_for_haskell_defns ::
  "settings \<Rightarrow> runner \<Rightarrow> string \<Rightarrow> string list \<Rightarrow> world \<Rightarrow> (exn + match list) \<times> world" where
  "search_for_haskell_defns cfg run query folders w =
     (case queries_for (strip query) of
        Inl e \<Rightarrow> (Inl e, w)
      | Inr queries \<Rightarrow> run_queries cfg run queries folders [] w)"

section \<open>render\_matches\<close>

text \<open>
  \<open>render_matches\<close> changes the dictionaries it is given, so here a match is a reference
  into a store of dictionaries, and the list of matches a list of references (the same
  dictionary may be in the list twice).
\<close>

datatype val = VStr string | VInt int

type_synonym dict = "string \<rightharpoonup> val"

type_synonym store = "nat \<Rightarrow> dict"

definition dict_of_match :: "match \<Rightarrow> dict" where
  \<comment> \<open>\<open>dict(path=..., line_nr=..., col_nr=..., content=...)\<close> as \<open>search\<close> builds it\<close>
  "dict_of_match m =
     [''path'' \<mapsto> VStr (path m), ''line_nr'' \<mapsto> VInt (line_nr m),
      ''col_nr'' \<mapsto> VInt (col_nr m), ''content'' \<mapsto> VStr (content m)]"

fun format_val :: "val \<Rightarrow> string" where
  \<comment> \<open>a value in a replacement field of \<open>str.format\<close>\<close>
  "format_val (VStr s) = s"
| "format_val (VInt n) = str_int n"

fun dd_append :: "(val \<times> nat list) list \<Rightarrow> val \<Rightarrow> nat \<Rightarrow> (val \<times> nat list) list" where
  \<comment> \<open>\<open>matches_by_path[path].append(match)\<close> on a \<open>defaultdict(list)\<close>, keys in the order of
      their first use\<close>
  "dd_append [] p a = [(p, [a])]"
| "dd_append ((q, xs) # rest) p a =
     (if q = p then (q, xs @ [a]) # rest else (q, xs) # dd_append rest p a)"

fun group_by_path ::
  "nat list \<Rightarrow> (val \<times> nat list) list \<Rightarrow> store \<Rightarrow> (exn + (val \<times> nat list) list) \<times> store" where
  \<comment> \<open>the first loop of \<open>render_matches\<close>: \<open>match.pop('path')\<close> raises where the key is
      missing and leaves the store as changed so far\<close>
  "group_by_path [] matches_by_path h = (Inr matches_by_path, h)"
| "group_by_path (a # rest) matches_by_path h =
     (case h a ''path'' of
        None \<Rightarrow> (Inl (KeyError ''path''), h)
      | Some p \<Rightarrow>
          group_by_path rest (dd_append matches_by_path p a) (h(a := (h a)(''path'' := None))))"

definition render_match :: "dict \<Rightarrow> exn + string" where
  \<comment> \<open>\<open>"  {l}:{c} {s}".format(l=m['line_nr'], c=m['col_nr'], s=m['content'])\<close>\<close>
  "render_match m =
     (case m ''line_nr'' of
        None \<Rightarrow> Inl (KeyError ''line_nr'')
      | Some l \<Rightarrow>
         (case m ''col_nr'' of
            None \<Rightarrow> Inl (KeyError ''col_nr'')
          | Some c \<Rightarrow>
             (case m ''content'' of
                None \<Rightarrow> Inl (KeyError ''content'')
              | Some s \<Rightarrow>
                 Inr (''  '' @ format_val l @ '':'' @ format_val c @ '' '' @ format_val s))))"

fun collect :: "('a \<Rightarrow> exn + string) \<Rightarrow> 'a list \<Rightarrow> exn + string list" where
  \<comment> \<open>a generator expression whose items may raise, consumed in order\<close>
  "collect f [] = Inr []"
| "collect f (x # xs) =
     (case f x of
        Inl e \<Rightarrow> Inl e
      | Inr y \<Rightarrow> (case collect f xs of Inl e \<Rightarrow> Inl e | Inr ys \<Rightarrow> Inr (y # ys)))"

definition render_path_matches :: "store \<Rightarrow> val \<times> nat list \<Rightarrow> exn + string" where
  "render_path_matches h pm =
     (case collect (\<lambda>a. render_match (h a)) (snd pm) of
        Inl e \<Rightarrow> Inl e
      | Inr rendered \<Rightarrow> Inr (format_val (fst pm) @ '':'' @ [CHR 0x0A] @ join [CHR 0x0A] rendered))"

definition render_matches :: "nat list \<Rightarrow> string \<Rightarrow> store \<Rightarrow> (exn + string) \<times> store" where
  "render_matches matches query h =
     (case group_by_path matches [] h of
        (Inl e, h') \<Rightarrow> (Inl e, h')
      | (Inr matches_by_path, h') \<Rightarrow>
         (let match_count = length matches;
              path_count = length matches_by_path;
              intro = ''GrepSearch matches for '' @ [CHR 0x22] @ query @ [CHR 0x22] @ '' ('' @
                      str_nat match_count @ '' lines in '' @ str_nat path_count @ '' files):''
          in case collect (render_path_matches h') matches_by_path of
               Inl e \<Rightarrow> (Inl e, h')
             | Inr blocks \<Rightarrow> (Inr (intro @ [CHR 0x0A, CHR 0x0A] @ join [CHR 0x0A] blocks), h')))"

section \<open>Examples\<close>

text \<open>A configuration, a world in which nothing has happened yet, and an engine that
  exits with a given code, output and error text.\<close>

definition rg :: settings where
  "rg = \<lparr>engine_name = ''ripgrep'', executable_path = ''rg'', required_args = [''--vimgrep'']\<rparr>"

definition quiet :: world where
  "quiet = \<lparr>printed = [], invoked = []\<rparr>"

definition exits :: "int \<Rightarrow> string \<Rightarrow> string \<Rightarrow> runner" where
  "exits rc out err = (\<lambda>cmd cwd. Inr \<lparr>returncode = rc, stdout = out, stderr = err\<rparr>)"

definition found :: store where
  "found a = dict_of_match (m_at (if a = 1 then ''b'' else ''a'') (int a + 1))"

section \<open>Properties of remove\_similar\_matches\<close>

lemma within_upt: "within s k [m ..< n] = [max m s ..< min n (s + k)]"
proof (rule sorted_distinct_set_unique)
  show "sorted (within s k [m ..< n])"
    unfolding within_def using sorted_filter [of "\<lambda>x. x" "[m ..< n]"] by simp
qed (auto simp: within_def)

lemma within_filter: "within s k (filter P ps) = filter P (within s k ps)"
  by (auto simp: within_def intro: filter_cong)

lemma within_yielded:
  "within s k (yielded ms ign) =
     (if ms \<noteq> [] \<and> s = 0 \<and> 0 < k then [0] else []) @
     filter (\<lambda>i. \<not> similar ign (ms ! (i - 1)) (ms ! i)) [max 1 s ..< min (length ms) (s + k)]"
proof -
  have "within s k (yielded ms ign) =
      within s k (if ms \<noteq> [] then [0] else []) @
      within s k (filter (\<lambda>i. \<not> similar ign (ms ! (i - 1)) (ms ! i)) [1 ..< length ms])"
    by (simp add: yielded_def within_def)
  moreover have "within s k (if ms \<noteq> [] then [0] else []) =
      (if ms \<noteq> [] \<and> s = 0 \<and> 0 < k then [0] else [])"
    by (auto simp: within_def)
  ultimately show ?thesis
    by (simp only: within_filter within_upt)
qed

lemma run_step:
  assumes run: "\<forall>j<k. path (ms ! (s + j)) = p \<and> line_nr (ms ! (s + j)) = n + int j"
    and i: "s < i" "i < s + k"
  shows "similar ign (ms ! (i - 1)) (ms ! i) = ign"
proof -
  define j where "j = i - Suc s"
  have j: "i = s + Suc j" "Suc j < k" "i - 1 = s + j" "j < k"
    using i by (simp_all add: j_def)
  from run j(2) have a: "path (ms ! (s + Suc j)) = p" "line_nr (ms ! (s + Suc j)) = n + int (Suc j)"
    by blast+
  from run j(4) have b: "path (ms ! (s + j)) = p" "line_nr (ms ! (s + j)) = n + int j"
    by blast+
  show ?thesis unfolding j(3) unfolding j(1) using a b by (simp add: similar_def)
qed

text \<open>
  C1 (as amended). A run of \<open>k \<ge> 1\<close> consecutive matches at positions \<open>s, ..., s+k-1\<close>
  with one path and the line numbers \<open>n, n+1, ..., n+k-1\<close>, whose first match is the first
  of the input or is not dropped against the match before it: with \<open>ignore_adjacents\<close>
  the filter yields exactly the first position of the run, without it all \<open>k\<close> positions.
\<close>

theorem run_collapses:
  assumes k: "0 < k" and len: "s + k \<le> length ms"
    and run: "\<forall>j<k. path (ms ! (s + j)) = p \<and> line_nr (ms ! (s + j)) = n + int j"
    and first: "s = 0 \<or> \<not> similar ign (ms ! (s - 1)) (ms ! s)"
  shows "within s k (yielded ms ign) = (if ign then [s] else [s ..< s + k])"
proof -
  let ?P = "\<lambda>i. \<not> similar ign (ms ! (i - 1)) (ms ! i)"
  have rest: "filter ?P [Suc s ..< s + k] = (if ign then [] else [Suc s ..< s + k])"
  proof (cases ign)
    case True
    then show ?thesis using run_step [OF run] by (simp add: filter_empty_conv)
  next
    case False
    then show ?thesis using run_step [OF run] by (simp add: filter_id_conv)
  qed
  have ne: "ms \<noteq> []" using k len by auto
  have m: "min (length ms) (s + k) = s + k" using len by simp
  have w: "within s k (yielded ms ign) = (if s = 0 then [0] else []) @ filter ?P [max 1 s ..< s + k]"
    using ne k by (simp only: within_yielded m) simp
  have hd: "(if s = 0 then [0] else []) @ filter ?P [max 1 s ..< s + k] = s # filter ?P [Suc s ..< s + k]"
  proof (cases "s = 0")
    case True
    then show ?thesis by simp
  next
    case False
    then have "[max 1 s ..< s + k] = s # [Suc s ..< s + k]"
      using k by (simp add: upt_conv_Cons max_def)
    then show ?thesis using False first by simp
  qed
  have "within s k (yielded ms ign) = s # (if ign then [] else [Suc s ..< s + k])"
    unfolding w hd rest ..
  then show ?thesis using k by (simp add: upt_conv_Cons)
qed

text \<open>
  C8 (as amended). Of two matches next to each other with the same path and line number
  the later one is never yielded, whatever \<open>ignore_adjacents\<close> is; the earlier one is
  yielded exactly when it is the first match of the input or is not dropped against the
  match before it. So one of the two survives in that case, and none otherwise.
\<close>

theorem duplicate_dropped:
  assumes "Suc i < length ms"
    and "path (ms ! i) = path (ms ! Suc i)" and "line_nr (ms ! i) = line_nr (ms ! Suc i)"
  shows "within i 2 (yielded ms ign) =
     (if i = 0 \<or> \<not> similar ign (ms ! (i - 1)) (ms ! i) then [i] else [])"
proof -
  let ?P = "\<lambda>i. \<not> similar ign (ms ! (i - 1)) (ms ! i)"
  have s: "\<not> ?P (Suc i)" using assms by (simp add: similar_def)
  have m: "min (length ms) (i + 2) = i + 2" using assms by simp
  have ne: "ms \<noteq> []" using assms by auto
  have w: "within i 2 (yielded ms ign) = (if i = 0 then [0] else []) @ filter ?P [max 1 i ..< i + 2]"
    using ne by (simp only: within_yielded m) simp
  have "(if i = 0 then [0] else []) @ filter ?P [max 1 i ..< i + 2] =
     (if i = 0 \<or> ?P i then [i] else [])"
  proof (cases "i = 0")
    case True
    then have "[max 1 i ..< i + 2] = [Suc i]" by (simp add: upt_conv_Cons)
    then show ?thesis using s True by simp
  next
    case False
    then have "[max 1 i ..< i + 2] = [i, Suc i]" by (simp add: upt_conv_Cons max_def)
    then show ?thesis using s False by simp
  qed
  then show ?thesis unfolding w .
qed

theorem run_collapses_witness:
  "within 1 2 (yielded [m_at ''a'' 1, m_at ''a'' 6, m_at ''a'' 7] True) = [1] \<and>
   within 1 2 (yielded [m_at ''a'' 1, m_at ''a'' 6, m_at ''a'' 7] False) = [1, 2]"
proof -
  let ?ms = "[m_at ''a'' 1, m_at ''a'' 6, m_at ''a'' 7]"
  have run: "\<forall>j<2. path (?ms ! (1 + j)) = ''a'' \<and> line_nr (?ms ! (1 + j)) = 6 + int j"
    by (simp add: less_2_cases_iff m_at_def)
  have first: "1 = (0::nat) \<or> \<not> similar ign (?ms ! (1 - 1)) (?ms ! 1)" for ign
    by (simp add: similar_def m_at_def)
  show ?thesis
    using run_collapses [of 2 1 ?ms "''a''" 6 True, OF _ _ run first]
      run_collapses [of 2 1 ?ms "''a''" 6 False, OF _ _ run first]
    by (simp add: upt_conv_Cons)
qed

text \<open>
  C1 as stated fails where the match before the run has the run's path and its first
  line number: the run at positions 1 and 2 below has the lines 5 and 6, and the filter
  yields neither of the two with \<open>ignore_adjacents\<close>, and only the second without.
\<close>

theorem run_counterexample:
  "path ([m_at ''a'' 5, m_at ''a'' 5, m_at ''a'' 6] ! 1) = ''a'' \<and>
   line_nr ([m_at ''a'' 5, m_at ''a'' 5, m_at ''a'' 6] ! 1) = 5 \<and>
   path ([m_at ''a'' 5, m_at ''a'' 5, m_at ''a'' 6] ! 2) = ''a'' \<and>
   line_nr ([m_at ''a'' 5, m_at ''a'' 5, m_at ''a'' 6] ! 2) = 5 + 1 \<and>
   within 1 2 (yielded [m_at ''a'' 5, m_at ''a'' 5, m_at ''a'' 6] True) = [] \<and>
   within 1 2 (yielded [m_at ''a'' 5, m_at ''a'' 5, m_at ''a'' 6] False) = [2] \<and>
   remove_similar_matches [m_at ''a'' 5, m_at ''a'' 5, m_at ''a'' 6] True = [m_at ''a'' 5] \<and>
   remove_similar_matches [m_at ''a'' 5, m_at ''a'' 5, m_at ''a'' 6] False =
     [m_at ''a'' 5, m_at ''a'' 6]"
  by (simp add: within_def yielded_def remove_similar_matches_def similar_def m_at_def
      upt_conv_Cons)

theorem duplicate_dropped_witness:
  "within 1 2 (yielded [m_at ''a'' 1, m_at ''b'' 3, m_at ''b'' 3] True) = [1] \<and>
   within 1 2 (yielded [m_at ''a'' 1, m_at ''b'' 3, m_at ''b'' 3] False) = [1]"
  using duplicate_dropped [of 1 "[m_at ''a'' 1, m_at ''b'' 3, m_at ''b'' 3]" True]
    duplicate_dropped [of 1 "[m_at ''a'' 1, m_at ''b'' 3, m_at ''b'' 3]" False]
  by (simp add: similar_def m_at_def)

text \<open>
  C8 as stated fails on three equal matches in a row: of the second and the third, which
  are next to each other with the same path and line number, none is yielded.
\<close>

theorem duplicate_counterexample:
  "path ([m_at ''a'' 1, m_at ''a'' 1, m_at ''a'' 1] ! 1) =
     path ([m_at ''a'' 1, m_at ''a'' 1, m_at ''a'' 1] ! 2) \<and>
   line_nr ([m_at ''a'' 1, m_at ''a'' 1, m_at ''a'' 1] ! 1) =
     line_nr ([m_at ''a'' 1, m_at ''a'' 1, m_at ''a'' 1] ! 2) \<and>
   within 1 2 (yielded [m_at ''a'' 1, m_at ''a'' 1, m_at ''a'' 1] True) = [] \<and>
   within 1 2 (yielded [m_at ''a'' 1, m_at ''a'' 1, m_at ''a'' 1] False) = [] \<and>
   remove_similar_matches [m_at ''a'' 1, m_at ''a'' 1, m_at ''a'' 1] True = [m_at ''a'' 1] \<and>
   remove_similar_matches [m_at ''a'' 1, m_at ''a'' 1, m_at ''a'' 1] False = [m_at ''a'' 1]"
  by (simp add: within_def yielded_def remove_similar_matches_def similar_def m_at_def
      upt_conv_Cons)

section \<open>Properties of search\<close>

lemma strip_Nil [simp]: "strip [] = []"
  by (simp add: strip_def)

lemma strip_all_space: "list_all isspace s \<Longrightarrow> strip s = []"
proof -
  assume "list_all isspace s"
  then have d: "dropWhile isspace s = []"
    unfolding dropWhile_eq_Nil_conv list_all_iff .
  show ?thesis unfolding strip_def d by simp
qed

lemma strip_empty_iff: "strip s = [] \<longleftrightarrow> list_all isspace s"
proof
  assume "strip s = []"
  then have a: "\<forall>c\<in>set (dropWhile isspace s). isspace c"
    by (simp add: strip_def)
  have "dropWhile isspace s = []"
  proof (rule ccontr)
    assume n: "dropWhile isspace s \<noteq> []"
    then have "\<not> isspace (hd (dropWhile isspace s))" by (rule hd_dropWhile)
    moreover have "hd (dropWhile isspace s) \<in> set (dropWhile isspace s)" using n by simp
    ultimately show False using a by blast
  qed
  then show "list_all isspace s" by (simp add: list_all_iff)
qed (rule strip_all_space)

text \<open>
  C7. For a query that is empty once stripped, \<open>search\<close> yields no match, and the world
  is as before: nothing was printed and no process was started.
\<close>

theorem search_blank_query:
  "strip query = [] \<Longrightarrow> search cfg run query folders w = (Inr [], w)"
  by (simp add: search_def)

theorem search_blank_query_witness:
  "strip [CHR '' '', CHR 0x09] = [] \<and>
   search rg (exits 0 ''a:1:1:x'' []) [CHR '' '', CHR 0x09] [''/p''] quiet = (Inr [], quiet)"
proof -
  have b: "strip [CHR '' '', CHR 0x09] = []" by (simp add: strip_def isspace_def)
  show ?thesis using b search_blank_query [OF b] by simp
qed

text \<open>
  C4. For a query that is empty or all whitespace, \<open>search_for_haskell_defns\<close> fails at
  \<open>query[0]\<close> on the stripped query, with the IndexError that the specification names
  EmptyQueryError; nothing else has happened by then, no process was started.
\<close>

theorem haskell_blank_query:
  "list_all isspace query \<Longrightarrow>
   strip query = [] \<and>
   search_for_haskell_defns cfg run query folders w = (Inl IndexError_string, w)"
  by (simp add: search_for_haskell_defns_def queries_for_def strip_all_space)

theorem haskell_blank_query_witness:
  "list_all isspace [CHR '' '', CHR 0x09] \<and>
   search_for_haskell_defns rg (exits 0 ''a:1:1:x'' []) [CHR '' '', CHR 0x09] [''/p''] quiet =
     (Inl IndexError_string, quiet) \<and>
   search_for_haskell_defns rg (exits 0 ''a:1:1:x'' []) [] [''/p''] quiet =
     (Inl IndexError_string, quiet)"
proof -
  have b: "list_all isspace [CHR '' '', CHR 0x09]" by (simp add: isspace_def)
  have e: "list_all isspace []" by simp
  show ?thesis
    using b haskell_blank_query [OF b, of rg "exits 0 ''a:1:1:x'' []" "[''/p'']" quiet]
      haskell_blank_query [OF e, of rg "exits 0 ''a:1:1:x'' []" "[''/p'']" quiet]
    by simp
qed

lemma parse_line_not_stderr: "parse_line line \<noteq> Inl (ValueError_stderr e)"
  by (simp add: parse_line_def Let_def split: option.splits)

lemma parse_lines_not_stderr: "parse_lines ls \<noteq> Inl (ValueError_stderr e)"
  by (induction ls) (auto simp: parse_line_not_stderr split: sum.splits)

lemma search_completed:
  assumes "strip query \<noteq> []" "folders = cwd # rest"
    and "run ([executable_path cfg] @ required_args cfg @ [query] @ folders) cwd = Inr cp"
  shows "fst (search cfg run query folders w) =
     (if is_error cfg cp then Inl (ValueError_stderr (strip (stderr cp)))
      else parse_lines (split_all (CHR 0x0A) (strip (stdout cp))))"
  using assms by (simp add: search_def Let_def)

text \<open>
  C2 (as amended). Once the process has completed, \<open>search\<close> raises the ValueError that
  carries the error text exactly when, for an engine of \<open>engines_needing_error_output\<close>,
  the exit code is not 0 and the stderr text is not empty after stripping, and for any
  other engine, when the exit code is not 0. An engine of the list with an empty stderr
  gives the matches parsed from stdout, whatever the exit code.
\<close>

theorem search_fails_iff:
  assumes "strip query \<noteq> []" and "folders = cwd # rest"
    and "run ([executable_path cfg] @ required_args cfg @ [query] @ folders) cwd = Inr cp"
  shows "((\<exists>e. fst (search cfg run query folders w) = Inl (ValueError_stderr e)) \<longleftrightarrow>
          (if engine_name cfg \<in> engines_needing_error_output
           then returncode cp \<noteq> 0 \<and> strip (stderr cp) \<noteq> []
           else returncode cp \<noteq> 0)) \<and>
         (engine_name cfg \<in> engines_needing_error_output \<and> stderr cp = [] \<longrightarrow>
          fst (search cfg run query folders w) =
            parse_lines (split_all (CHR 0x0A) (strip (stdout cp))))"
  using assms search_completed [of query folders cwd rest run cfg cp w]
  by (simp add: is_error_def parse_lines_not_stderr)

theorem search_fails_iff_witness:
  "(\<exists>e. fst (search rg (exits 2 '' a:1:2:x'' ''boom'') ''foo'' [''/p''] quiet) =
        Inl (ValueError_stderr e)) \<and>
   fst (search rg (exits 2 '' a:1:2:x'' []) ''foo'' [''/p''] quiet) =
     Inr [\<lparr>path = ''a'', line_nr = 1, col_nr = 2, content = ''x''\<rparr>]"
  using search_fails_iff [of "''foo''" "[''/p'']" "''/p''" "[]" "exits 2 '' a:1:2:x'' ''boom''" rg
      "\<lparr>returncode = 2, stdout = '' a:1:2:x'', stderr = ''boom''\<rparr>" quiet]
    search_fails_iff [of "''foo''" "[''/p'']" "''/p''" "[]" "exits 2 '' a:1:2:x'' []" rg
      "\<lparr>returncode = 2, stdout = '' a:1:2:x'', stderr = []\<rparr>" quiet]
  by (simp add: strip_def isspace_def exits_def rg_def engines_needing_error_output_def
      split_all_def parse_line_def eval_nat_numeral int_py_def int_strip_def int_space_def int_digits_ok_def isdigit_def digits_value_def
      digit_val_def)

text \<open>
  C2 as stated fails on a stderr text that is not empty but all whitespace: the engine is
  on the list, the exit code is 1, and the search succeeds.
\<close>

theorem search_fails_counterexample:
  "engine_name rg \<in> engines_needing_error_output \<and>
   returncode \<lparr>returncode = 1, stdout = [], stderr = '' ''\<rparr> \<noteq> 0 \<and>
   stderr \<lparr>returncode = 1, stdout = [], stderr = '' ''\<rparr> \<noteq> [] \<and>
   search rg (exits 1 [] '' '') ''foo'' [''/p''] quiet =
     (Inr [], \<lparr>printed = [''Running: rg --vimgrep foo /p''],
               invoked = [([''rg'', ''--vimgrep'', ''foo'', ''/p''], ''/p'')]\<rparr>)"
  by (simp add: search_def is_error_def strip_def isspace_def exits_def rg_def quiet_def
      engines_needing_error_output_def split_all_def)

text \<open>
  C9. For an engine of \<open>engines_needing_error_output\<close>, an exit code other than 0 with a
  stderr text of whitespace only is a success: the result is what the lines of stdout
  parse to. And whenever \<open>search\<close> raises the ValueError of a failed engine, for any
  engine, it carries the stripped stderr text of a process that exited with a code
  other than 0.
\<close>

theorem whitespace_stderr_is_empty:
  "(engine_name cfg \<in> engines_needing_error_output \<and> strip query \<noteq> [] \<and>
    folders = cwd # rest \<and>
    run ([executable_path cfg] @ required_args cfg @ [query] @ folders) cwd = Inr cp \<and>
    returncode cp \<noteq> 0 \<and> list_all isspace (stderr cp) \<longrightarrow>
    fst (search cfg run query folders w) =
      parse_lines (split_all (CHR 0x0A) (strip (stdout cp)))) \<and>
   (fst (search cfg run query folders w) = Inl (ValueError_stderr e) \<longrightarrow>
    (\<exists>cp. run ([executable_path cfg] @ required_args cfg @ [query] @ folders) (hd folders) =
            Inr cp \<and> returncode cp \<noteq> 0 \<and> e = strip (stderr cp)))"
proof (intro conjI impI)
  assume a: "engine_name cfg \<in> engines_needing_error_output \<and> strip query \<noteq> [] \<and>
    folders = cwd # rest \<and>
    run ([executable_path cfg] @ required_args cfg @ [query] @ folders) cwd = Inr cp \<and>
    returncode cp \<noteq> 0 \<and> list_all isspace (stderr cp)"
  then have "\<not> is_error cfg cp" by (simp add: is_error_def strip_all_space)
  then show "fst (search cfg run query folders w) =
      parse_lines (split_all (CHR 0x0A) (strip (stdout cp)))"
    using a search_completed [of query folders cwd rest run cfg cp w] by auto
next
  assume e: "fst (search cfg run query folders w) = Inl (ValueError_stderr e)"
  then show "\<exists>cp. run ([executable_path cfg] @ required_args cfg @ [query] @ folders) (hd folders) =
            Inr cp \<and> returncode cp \<noteq> 0 \<and> e = strip (stderr cp)"
    by (auto simp: search_def Let_def is_error_def parse_lines_not_stderr
        split: if_splits list.splits sum.splits)
qed

theorem whitespace_stderr_is_empty_witness:
  "fst (search rg (exits 2 ''a:1:2:x'' [CHR '' '', CHR 0x0A]) ''foo'' [''/p''] quiet) =
     Inr [\<lparr>path = ''a'', line_nr = 1, col_nr = 2, content = ''x''\<rparr>] \<and>
   fst (search rg (exits 2 [] [CHR '' '', CHR ''x'', CHR 0x0A]) ''foo'' [''/p''] quiet) =
     Inl (ValueError_stderr ''x'')"
proof -
  have 1: "fst (search rg (exits 2 ''a:1:2:x'' [CHR '' '', CHR 0x0A]) ''foo'' [''/p''] quiet) =
     Inr [\<lparr>path = ''a'', line_nr = 1, col_nr = 2, content = ''x''\<rparr>]"
    using whitespace_stderr_is_empty [of rg "''foo''" "[''/p'']" "''/p''" "[]"
        "exits 2 ''a:1:2:x'' [CHR '' '', CHR 0x0A]"
        "\<lparr>returncode = 2, stdout = ''a:1:2:x'', stderr = [CHR '' '', CHR 0x0A]\<rparr>" quiet]
    by (simp add: strip_def isspace_def exits_def rg_def engines_needing_error_output_def
      split_all_def parse_line_def eval_nat_numeral int_py_def int_strip_def int_space_def int_digits_ok_def isdigit_def digits_value_def
      digit_val_def)
  have 2: "fst (search rg (exits 2 [] [CHR '' '', CHR ''x'', CHR 0x0A]) ''foo'' [''/p''] quiet) =
     Inl (ValueError_stderr ''x'')"
    by (simp add: search_def is_error_def strip_def isspace_def exits_def rg_def
      engines_needing_error_output_def)
  show ?thesis using 1 2 by simp
qed

text \<open>
  \<open>int()\<close> does not skip the separators 28 to 31 that \<open>strip()\<close> removes: a line whose
  number has one of them at an end makes the search fail, at any exit code that is not
  taken as an error. It does skip a no-break space.
\<close>

lemma int_py_separators:
  "int_py ([CHR 0x1C] @ ''5'') = None \<and> int_py (''2'' @ [CHR 0x1F]) = None \<and>
   int_py ([CHR 0xA0] @ ''5 '') = Some 5 \<and> int_py '' -1_0'' = Some (- 10) \<and>
   fst (search rg (exits 2 (''a:'' @ [CHR 0x1C] @ ''5:2:x'') []) ''foo'' [''/p''] quiet) =
     Inl (ValueError_int ([CHR 0x1C] @ ''5''))"
  by code_simp

section \<open>Properties of the line parser\<close>

lemma split_at_first:
  "sep \<in> set s \<Longrightarrow>
   s = takeWhile (\<lambda>c. c \<noteq> sep) s @ sep # tl (dropWhile (\<lambda>c. c \<noteq> sep) s)"
proof -
  assume "sep \<in> set s"
  then have n: "dropWhile (\<lambda>c. c \<noteq> sep) s \<noteq> []"
    by (auto simp: dropWhile_eq_Nil_conv)
  then have "hd (dropWhile (\<lambda>c. c \<noteq> sep) s) = sep"
    using hd_dropWhile [of "\<lambda>c. c \<noteq> sep" s] by simp
  then have "dropWhile (\<lambda>c. c \<noteq> sep) s = sep # tl (dropWhile (\<lambda>c. c \<noteq> sep) s)"
    using n by (metis list.collapse)
  then show ?thesis
    using takeWhile_dropWhile_id [of "\<lambda>c. c \<noteq> sep" s] by simp
qed

lemma count_list_0: "sep \<notin> set s \<Longrightarrow> count_list s sep = 0"
  by (induction s) auto

lemma count_list_takeWhile: "count_list (takeWhile (\<lambda>c. c \<noteq> sep) s) sep = 0"
  by (rule count_list_0) (auto dest: set_takeWhileD)

lemma count_list_append: "count_list (xs @ ys) a = count_list xs a + count_list ys a"
  by (induction xs) auto

lemma count_list_first:
  assumes "sep \<in> set s"
  shows "count_list s sep = Suc (count_list (tl (dropWhile (\<lambda>c. c \<noteq> sep) s)) sep)"
proof -
  have "count_list s sep =
      count_list (takeWhile (\<lambda>c. c \<noteq> sep) s @ sep # tl (dropWhile (\<lambda>c. c \<noteq> sep) s)) sep"
    using split_at_first [OF assms] by simp
  then show ?thesis
    by (simp only: count_list_append count_list_takeWhile) simp
qed

lemma length_split_max: "length (split_max sep n s) = Suc (min n (count_list s sep))"
proof (induction n arbitrary: s)
  case 0
  then show ?case by simp
next
  case (Suc n)
  show ?case
  proof (cases "sep \<in> set s")
    case True
    then show ?thesis using Suc count_list_first [OF True] by simp
  next
    case False
    then show ?thesis by (simp add: count_list_0)
  qed
qed

lemma join_split_max: "join [sep] (split_max sep n s) = s"
proof (induction n arbitrary: s)
  case 0
  then show ?case by simp
next
  case (Suc n)
  show ?case
  proof (cases "sep \<in> set s")
    case True
    let ?r = "tl (dropWhile (\<lambda>c. c \<noteq> sep) s)"
    obtain y ys where y: "split_max sep n ?r = y # ys"
      by (cases "split_max sep n ?r") (use length_split_max [of sep n ?r] in auto)
    have "join [sep] (split_max sep (Suc n) s) =
        takeWhile (\<lambda>c. c \<noteq> sep) s @ [sep] @ join [sep] (split_max sep n ?r)"
      using True y by simp
    also have "\<dots> = takeWhile (\<lambda>c. c \<noteq> sep) s @ sep # ?r"
      by (simp add: Suc)
    finally show ?thesis using split_at_first [OF True] by simp
  next
    case False
    then show ?thesis by simp
  qed
qed

text \<open>
  C5. A line is split at its first three colons at most, so there are at most four parts
  and the last one keeps every further colon (joining the parts with colons gives the
  line back). There are fewer than four parts exactly when the line has fewer than three
  colons, and then the parser raises the ValueError with the message
  \<open>Too few colon-separated section in match\<close> and the line; in the loop of \<open>search\<close> such
  a line, unless it is blank, ends the search with that error instead of being skipped.
\<close>

theorem too_few_parts:
  "length (split_max (CHR '':'') 3 line) \<le> 4 \<and>
   join '':'' (split_max (CHR '':'') 3 line) = line \<and>
   (length (split_max (CHR '':'') 3 line) < 4 \<longleftrightarrow> count_list line (CHR '':'') < 3) \<and>
   (count_list line (CHR '':'') < 3 \<longrightarrow>
      parse_line line =
        Inl (ValueError_too_few (''Too few colon-separated section in match: '' @ line)) \<and>
      (strip line \<noteq> [] \<longrightarrow>
         parse_lines (line # rest) =
           Inl (ValueError_too_few (''Too few colon-separated section in match: '' @ line))))"
proof -
  have l: "length (split_max (CHR '':'') 3 line) = Suc (min 3 (count_list line (CHR '':'')))"
    by (rule length_split_max)
  have p: "parse_line line =
      Inl (ValueError_too_few (''Too few colon-separated section in match: '' @ line))"
    if "count_list line (CHR '':'') < 3"
    using that l by (simp add: parse_line_def Let_def)
  show ?thesis using l p join_split_max [of "CHR '':''" 3 line] by auto
qed

theorem too_few_parts_witness:
  "parse_line ''src/a.py:10:def foo()'' =
     Inl (ValueError_too_few
       ''Too few colon-separated section in match: src/a.py:10:def foo()'') \<and>
   parse_lines [''a:1:2:x'', ''src/a.py:10:def foo()'', ''b:1:2:y''] =
     Inl (ValueError_too_few
       ''Too few colon-separated section in match: src/a.py:10:def foo()'')"
proof -
  have c: "count_list ''src/a.py:10:def foo()'' (CHR '':'') < 3" by simp
  have s: "strip ''src/a.py:10:def foo()'' \<noteq> []" by (simp add: strip_def isspace_def)
  have a: "parse_line ''a:1:2:x'' = Inr \<lparr>path = ''a'', line_nr = 1, col_nr = 2, content = ''x''\<rparr>"
    by (simp add: parse_line_def eval_nat_numeral int_py_def int_strip_def int_space_def int_digits_ok_def isdigit_def
        digits_value_def digit_val_def strip_def isspace_def)
  have "strip ''a:1:2:x'' \<noteq> []" by (simp add: strip_def isspace_def)
  then show ?thesis
    using too_few_parts [of "''src/a.py:10:def foo()''" "[''b:1:2:y'']"] c s a by simp
qed

section \<open>Properties of search\_for\_haskell\_defns\<close>

lemma char_by_code: "(of_char d :: nat) = n \<Longrightarrow> (c = d) = ((of_char c :: nat) = n)"
  by auto

lemma upper_test_Latin1:
  "isalpha c \<and> upper_is_self c \<longleftrightarrow> isupper c \<or> c = CHR 0xAA \<or> c = CHR 0xBA"
proof -
  have a: "(c = CHR 0xAA) = ((of_char c :: nat) = 170)"
    by (rule char_by_code) simp
  have b: "(c = CHR 0xBA) = ((of_char c :: nat) = 186)"
    by (rule char_by_code) simp
  have "(of_char c :: nat) < 256" by simp
  then show ?thesis
    unfolding a b isalpha_def upper_is_self_def isupper_def Let_def by arith
qed

text \<open>
  What the code does with a query that is not empty once stripped: the sub-queries are
  the four labelled Module, Type definition, Class definition, Constructor, in that
  order, when the first character is alphabetic and equal to its own upper-case form,
  and the three labelled Value type, Value definition, Record getter otherwise; each is
  run, in that order. The test holds for every upper-case letter, and also for the
  letters that have no upper-case form: among the characters of the model, the two
  ordinal indicators.
\<close>

lemma queries_for_first_char:
  assumes "strip query = c # rest"
  shows "(\<exists>queries.
     queries_for (strip query) = Inr queries \<and>
     search_for_haskell_defns cfg run query folders w =
       run_queries cfg run queries folders [] w \<and>
     map fst queries =
       (if isalpha c \<and> upper_is_self c
        then [''Module'', ''Type definition'', ''Class definition'', ''Constructor'']
        else [''Value type'', ''Value definition'', ''Record getter''])) \<and>
    ((isalpha c \<and> upper_is_self c) = (isupper c \<or> c = CHR 0xAA \<or> c = CHR 0xBA))"
  using assms upper_test_Latin1 [of c]
  by (simp add: search_for_haskell_defns_def queries_for_def type_queries_def
      value_queries_def Let_def)

text \<open>
  C6. The claim, like the comment in the source (``based on whether query starts with an
  uppercase letter''), gives the four sub-queries of a type name to a first character
  that is an upper-case letter and the three of a value name to every other one. The
  code tests \<open>isalpha()\<close> and \<open>upper() == query[0]\<close> instead, and misses on a letter
  without an upper-case form: for the query made of the feminine ordinal indicator and
  \<open>b\<close>, whose first character is alphabetic and not upper-case, it builds the four
  sub-queries of a type name, not the three of a value name, and runs four searches.
\<close>

theorem queries_ordinal_indicator:
  "strip [CHR 0xAA, CHR ''b''] = [CHR 0xAA, CHR ''b''] \<and>
   isalpha (CHR 0xAA) \<and> \<not> isupper (CHR 0xAA) \<and>
   queries_for (strip [CHR 0xAA, CHR ''b'']) = Inr (type_queries [CHR 0xAA, CHR ''b'']) \<and>
   queries_for (strip [CHR 0xAA, CHR ''b'']) \<noteq> Inr (value_queries [CHR 0xAA, CHR ''b'']) \<and>
   map fst (type_queries [CHR 0xAA, CHR ''b'']) =
     [''Module'', ''Type definition'', ''Class definition'', ''Constructor''] \<and>
   length (invoked (snd (search_for_haskell_defns rg (exits 0 [] []) [CHR 0xAA, CHR ''b'']
     [''/p''] quiet))) = 4"
  by code_simp

section \<open>Parsing a rendered match\<close>

lemma int_strip_id:
  "s = [] \<or> \<not> int_space (hd s) \<and> \<not> int_space (last s) \<Longrightarrow> int_strip s = s"
proof (cases s)
  case Nil
  then show ?thesis by (simp add: int_strip_def)
next
  case (Cons x xs)
  assume "s = [] \<or> \<not> int_space (hd s) \<and> \<not> int_space (last s)"
  then have h: "\<not> int_space (hd s)" and l: "\<not> int_space (last s)" using Cons by auto
  have 1: "dropWhile int_space s = s" using h Cons by simp
  have "rev s = rev (butlast s @ [last s])" using Cons by simp
  then have e: "rev s = last s # rev (butlast s)" by simp
  have "dropWhile int_space (last s # rev (butlast s)) = last s # rev (butlast s)"
    using l by simp
  then have "dropWhile int_space (rev s) = rev s" unfolding e .
  then show ?thesis by (simp add: int_strip_def 1)
qed

lemma digit_code: "d < 10 \<Longrightarrow> (of_char (digit_char d) :: nat) = 48 + d"
  by (simp add: digit_char_def)

lemma isdigit_digit_char: "d < 10 \<Longrightarrow> isdigit (digit_char d)"
  by (simp add: isdigit_def digit_code)

lemma digit_val_digit_char: "d < 10 \<Longrightarrow> digit_val (digit_char d) = d"
  by (simp add: digit_val_def digit_code)

lemma isdigit_plain:
  "isdigit c \<Longrightarrow> c \<noteq> CHR ''_'' \<and> c \<noteq> CHR ''-'' \<and> c \<noteq> CHR ''+'' \<and> c \<noteq> CHR '':'' \<and> \<not> int_space c"
  by (auto simp: isdigit_def int_space_def Let_def)

lemma str_nat_digits: "list_all isdigit (str_nat n) \<and> str_nat n \<noteq> []"
proof (induction n rule: str_nat.induct)
  case (1 n)
  show ?case
  proof (cases "n < 10")
    case True
    then show ?thesis by (simp add: str_nat.simps [of n] isdigit_digit_char)
  next
    case False
    then show ?thesis using 1 by (simp add: str_nat.simps [of n] isdigit_digit_char)
  qed
qed

lemma foldl_digits_str_nat:
  "foldl (\<lambda>a c. 10 * a + digit_val c) 0 (str_nat n) = n"
proof (induction n rule: str_nat.induct)
  case (1 n)
  show ?case
  proof (cases "n < 10")
    case True
    then show ?thesis by (simp add: str_nat.simps [of n] digit_val_digit_char)
  next
    case False
    then show ?thesis using 1 by (simp add: str_nat.simps [of n] digit_val_digit_char)
  qed
qed

lemma digits_value_all: "list_all isdigit s \<Longrightarrow> filter isdigit s = s"
  by (simp add: list_all_iff)

lemma int_digits_ok_all:
  assumes "list_all isdigit s" "s \<noteq> []"
  shows "int_digits_ok s"
proof -
  have d: "\<And>c. c \<in> set s \<Longrightarrow> isdigit c" using assms by (simp add: list_all_iff)
  have "hd s \<in> set s" "last s \<in> set s" using assms by simp_all
  then have "hd s \<noteq> CHR ''_''" "last s \<noteq> CHR ''_''" using d isdigit_plain by blast+
  moreover have "(CHR ''_'', CHR ''_'') \<notin> set (zip s (tl s))"
  proof
    assume "(CHR ''_'', CHR ''_'') \<in> set (zip s (tl s))"
    then have "CHR ''_'' \<in> set s" by (rule set_zip_leftD)
    then show False using d isdigit_plain by blast
  qed
  moreover have "list_all (\<lambda>c. isdigit c \<or> c = CHR ''_'') s"
    using d by (simp add: list_all_iff)
  ultimately show ?thesis using assms by (simp add: int_digits_ok_def)
qed

lemma int_py_str_int: "int_py (str_int n) = Some n"
proof -
  let ?d = "str_nat (nat \<bar>n\<bar>)"
  have all: "list_all isdigit ?d" and ne: "?d \<noteq> []" using str_nat_digits by blast+
  have hd: "isdigit (hd ?d)" and last: "isdigit (last ?d)"
    using all ne by (simp_all add: list_all_iff)
  have ok: "int_digits_ok ?d" using all ne by (rule int_digits_ok_all)
  have v: "digits_value ?d = nat \<bar>n\<bar>"
    by (simp add: digits_value_def digits_value_all [OF all] foldl_digits_str_nat)
  show ?thesis
  proof (cases "n < 0")
    case True
    then have s: "str_int n = CHR ''-'' # ?d" by (simp add: str_int_def abs_if)
    have "\<not> int_space (CHR ''-'')" by (simp add: int_space_def)
    moreover have "\<not> int_space (last (CHR ''-'' # ?d))" using last ne isdigit_plain by simp
    ultimately have "int_strip (CHR ''-'' # ?d) = CHR ''-'' # ?d" by (intro int_strip_id) simp
    then show ?thesis using True ok v unfolding s by (simp add: int_py_def)
  next
    case False
    then have s: "str_int n = ?d" by (simp add: str_int_def abs_if)
    have "int_strip ?d = ?d" using hd last isdigit_plain by (intro int_strip_id) blast
    moreover have "hd ?d \<noteq> CHR ''-''" "hd ?d \<noteq> CHR ''+''" using hd isdigit_plain by blast+
    ultimately show ?thesis using False ok v ne unfolding s by (simp add: int_py_def)
  qed
qed

lemma str_int_no_colon: "CHR '':'' \<notin> set (str_int n)"
proof -
  have "\<And>m. CHR '':'' \<notin> set (str_nat m)"
    using str_nat_digits isdigit_plain by (metis list_all_iff)
  then show ?thesis by (simp add: str_int_def)
qed

lemma split_max_cut:
  "sep \<notin> set x \<Longrightarrow> split_max sep (Suc n) (x @ sep # r) = x # split_max sep n r"
proof -
  assume a: "sep \<notin> set x"
  then have "takeWhile (\<lambda>c. c \<noteq> sep) (x @ sep # r) = x"
    by (subst takeWhile_append2) auto
  moreover have "dropWhile (\<lambda>c. c \<noteq> sep) (x @ sep # r) = sep # r"
    using a by (subst dropWhile_append2) auto
  moreover have "sep \<in> set (x @ sep # r)" by simp
  ultimately show ?thesis by simp
qed

text \<open>
  C3 (as amended). For a match whose path has no colon and no whitespace at its ends,
  parsing the raw line \<open>path:line_nr:col_nr:content\<close> gives the match back, whatever the
  content is.
\<close>

theorem parse_render_roundtrip:
  assumes "CHR '':'' \<notin> set (path m)" and "strip (path m) = path m"
  shows "parse_line (render_raw_line m) = Inr m"
proof -
  have r: "render_raw_line m =
      path m @ CHR '':'' # str_int (line_nr m) @ CHR '':'' # str_int (col_nr m) @
      CHR '':'' # content m"
    by (simp add: render_raw_line_def render_location_def)
  have 3: "(3::nat) = Suc (Suc (Suc 0))" by simp
  have "split_max (CHR '':'') 3 (render_raw_line m) =
      [path m, str_int (line_nr m), str_int (col_nr m), content m]"
    unfolding r 3
    by (simp only: split_max_cut [OF assms(1)] split_max_cut [OF str_int_no_colon]
        split_max.simps(1))
  then show ?thesis using assms(2)
    by (simp add: parse_line_def int_py_str_int)
qed

theorem parse_render_roundtrip_witness:
  "parse_line (render_raw_line \<lparr>path = ''src/a b.py'', line_nr = 120, col_nr = - 3,
      content = '' x: y ''\<rparr>) =
     Inr \<lparr>path = ''src/a b.py'', line_nr = 120, col_nr = - 3, content = '' x: y ''\<rparr>"
proof -
  let ?m = "\<lparr>path = ''src/a b.py'', line_nr = 120, col_nr = - 3, content = '' x: y ''\<rparr>"
  have a: "CHR '':'' \<notin> set (path ?m)" by simp
  have b: "strip (path ?m) = path ?m" by (simp add: strip_def isspace_def)
  show ?thesis by (rule parse_render_roundtrip [OF a b])
qed

text \<open>
  C3 as stated fails on a path with a colon and on a path with whitespace at an end; the
  content of both matches has no newline. The first line is split inside the path and
  \<open>int\<close> rejects what follows; the second is parsed to a match with the path stripped.
\<close>

theorem parse_render_counterexample:
  "CHR 0x0A \<notin> set (content \<lparr>path = ''C:/x'', line_nr = 1, col_nr = 2, content = ''t''\<rparr>) \<and>
   parse_line (render_raw_line \<lparr>path = ''C:/x'', line_nr = 1, col_nr = 2, content = ''t''\<rparr>) =
     Inl (ValueError_int ''/x'') \<and>
   parse_line (render_raw_line \<lparr>path = '' a'', line_nr = 1, col_nr = 2, content = ''t''\<rparr>) =
     Inr \<lparr>path = ''a'', line_nr = 1, col_nr = 2, content = ''t''\<rparr>"
  by code_simp

section \<open>Properties of render\_matches\<close>

lemma group_keeps_popped:
  "group_by_path ms by_path h = (r, h') \<Longrightarrow> h a ''path'' = None \<Longrightarrow> h' a ''path'' = None"
proof (induction ms arbitrary: by_path h)
  case Nil
  then show ?case by simp
next
  case (Cons b ms)
  show ?case
  proof (cases "h b ''path''")
    case None
    then show ?thesis using Cons.prems by simp
  next
    case (Some p)
    then have "group_by_path ms (dd_append by_path p b) (h(b := (h b)(''path'' := None))) = (r, h')"
      using Cons.prems by simp
    then show ?thesis
      by (rule Cons.IH) (simp add: Cons.prems(2))
  qed
qed

lemma group_effect:
  "group_by_path ms by_path h = (Inr grouped, h') \<Longrightarrow>
   h' = (\<lambda>a. if a \<in> set ms then (h a)(''path'' := None) else h a)"
proof (induction ms arbitrary: by_path h)
  case Nil
  then show ?case by simp
next
  case (Cons b ms)
  show ?case
  proof (cases "h b ''path''")
    case None
    then show ?thesis using Cons.prems by simp
  next
    case (Some p)
    let ?h = "h(b := (h b)(''path'' := None))"
    have "group_by_path ms (dd_append by_path p b) ?h = (Inr grouped, h')"
      using Some Cons.prems by simp
    then have "h' = (\<lambda>a. if a \<in> set ms then (?h a)(''path'' := None) else ?h a)"
      by (rule Cons.IH)
    then show ?thesis by (auto simp: fun_eq_iff)
  qed
qed

lemma group_error:
  "group_by_path ms by_path h = (Inl e, h') \<Longrightarrow> e = KeyError ''path''"
  by (induction ms arbitrary: by_path h) (auto split: option.splits)

lemma collect_no_path:
  "(\<And>x. f x \<noteq> Inl (KeyError ''path'')) \<Longrightarrow> collect f xs \<noteq> Inl (KeyError ''path'')"
  by (induction xs) (auto split: sum.splits)

lemma render_match_no_path: "render_match d \<noteq> Inl (KeyError ''path'')"
  by (simp add: render_match_def split: option.splits)

lemma render_path_matches_no_path: "render_path_matches h pm \<noteq> Inl (KeyError ''path'')"
  using collect_no_path [of "\<lambda>a. render_match (h a)" "snd pm", OF render_match_no_path]
  by (auto simp: render_path_matches_def split: sum.splits)

lemma render_matches_grouped:
  assumes "render_matches ms query h = (r, h')" and "r \<noteq> Inl (KeyError ''path'')"
  shows "\<exists>grouped. group_by_path ms [] h = (Inr grouped, h')"
proof (cases "group_by_path ms [] h")
  case (Pair g h1)
  show ?thesis
  proof (cases g)
    case (Inl e)
    then have "e = KeyError ''path''" using Pair group_error by blast
    then show ?thesis using assms Pair Inl by (simp add: render_matches_def)
  next
    case (Inr grouped)
    then have "h' = h1" using assms Pair
      by (auto simp: render_matches_def Let_def split: sum.splits)
    then show ?thesis using Pair Inr by simp
  qed
qed

text \<open>
  C10. Whenever \<open>render_matches\<close> gets past its grouping loop (it returns the report, or
  fails later for a key other than \<open>path\<close>), the store differs from the one before in
  exactly this: every dictionary of the input list has lost its key \<open>path\<close>. So no
  match of the input keeps a path.
\<close>

theorem render_matches_pops_path:
  assumes "render_matches ms query h = (r, h')" and "r \<noteq> Inl (KeyError ''path'')"
  shows "h' = (\<lambda>a. if a \<in> set ms then (h a)(''path'' := None) else h a) \<and>
         (\<forall>a\<in>set ms. ''path'' \<notin> dom (h' a))"
proof -
  obtain grouped where "group_by_path ms [] h = (Inr grouped, h')"
    using render_matches_grouped [OF assms] by blast
  then have "h' = (\<lambda>a. if a \<in> set ms then (h a)(''path'' := None) else h a)"
    by (rule group_effect)
  then show ?thesis by simp
qed

lemma group_succeeds:
  "distinct ms \<Longrightarrow> \<forall>a\<in>set ms. h a ''path'' \<noteq> None \<Longrightarrow>
   \<exists>grouped h'. group_by_path ms by_path h = (Inr grouped, h')"
proof (induction ms arbitrary: by_path h)
  case Nil
  then show ?case by simp
next
  case (Cons b ms)
  then obtain p where p: "h b ''path'' = Some p" by auto
  let ?h = "h(b := (h b)(''path'' := None))"
  have "\<forall>a\<in>set ms. ?h a ''path'' \<noteq> None" using Cons.prems by auto
  moreover have "distinct ms" using Cons.prems by simp
  ultimately have "\<exists>grouped h'. group_by_path ms (dd_append by_path p b) ?h = (Inr grouped, h')"
    by (rule Cons.IH [rotated])
  then show ?case using p by simp
qed

lemma dd_append_members:
  "(\<Union>pm\<in>set (dd_append by_path p a). set (snd pm)) = insert a (\<Union>pm\<in>set by_path. set (snd pm))"
  by (induction by_path p a rule: dd_append.induct) auto

lemma group_members:
  "group_by_path ms by_path h = (Inr grouped, h') \<Longrightarrow>
   (\<Union>pm\<in>set grouped. set (snd pm)) = (\<Union>pm\<in>set by_path. set (snd pm)) \<union> set ms"
proof (induction ms arbitrary: by_path h)
  case Nil
  then show ?case by simp
next
  case (Cons b ms)
  show ?case
  proof (cases "h b ''path''")
    case None
    then show ?thesis using Cons.prems by simp
  next
    case (Some p)
    then have "group_by_path ms (dd_append by_path p b) (h(b := (h b)(''path'' := None))) =
        (Inr grouped, h')"
      using Cons.prems by simp
    then have "(\<Union>pm\<in>set grouped. set (snd pm)) =
        (\<Union>pm\<in>set (dd_append by_path p b). set (snd pm)) \<union> set ms"
      by (rule Cons.IH)
    then show ?thesis by (simp add: dd_append_members)
  qed
qed

lemma collect_succeeds:
  "\<forall>x\<in>set xs. \<exists>y. f x = Inr y \<Longrightarrow> \<exists>ys. collect f xs = Inr ys"
  by (induction xs) auto

lemma render_matches_returns:
  assumes "distinct ms"
    and "\<forall>a\<in>set ms. {''path'', ''line_nr'', ''col_nr'', ''content''} \<subseteq> dom (h a)"
  shows "\<exists>rendered h'. render_matches ms query h = (Inr rendered, h')"
proof -
  have "\<forall>a\<in>set ms. h a ''path'' \<noteq> None" using assms(2) by auto
  then obtain grouped h' where g: "group_by_path ms [] h = (Inr grouped, h')"
    using group_succeeds [OF assms(1)] by blast
  have h': "h' = (\<lambda>a. if a \<in> set ms then (h a)(''path'' := None) else h a)"
    using g by (rule group_effect)
  have m: "(\<Union>pm\<in>set grouped. set (snd pm)) = set ms"
    using group_members [OF g] by simp
  have one: "\<exists>y. render_match (h' a) = Inr y" if "a \<in> set ms" for a
  proof -
    from that assms(2) obtain l c s where
      "h a ''line_nr'' = Some l" "h a ''col_nr'' = Some c" "h a ''content'' = Some s"
      by (auto simp: dom_def)
    then show ?thesis using that by (simp add: h' render_match_def)
  qed
  have "\<exists>y. render_path_matches h' pm = Inr y" if "pm \<in> set grouped" for pm
  proof -
    have "set (snd pm) \<subseteq> set ms" using that m by blast
    then have "\<forall>a\<in>set (snd pm). \<exists>y. render_match (h' a) = Inr y" using one by blast
    then obtain ys where "collect (\<lambda>a. render_match (h' a)) (snd pm) = Inr ys"
      using collect_succeeds [of "snd pm" "\<lambda>a. render_match (h' a)"] by blast
    then show ?thesis by (simp add: render_path_matches_def)
  qed
  then obtain blocks where "collect (render_path_matches h') grouped = Inr blocks"
    using collect_succeeds [of grouped "render_path_matches h'"] by blast
  then show ?thesis using g by (simp add: render_matches_def Let_def)
qed

theorem render_matches_pops_path_witness:
  "snd (render_matches [0, 1, 2] ''q'' found) 0 ''path'' = None \<and>
   snd (render_matches [0, 1, 2] ''q'' found) 1 ''path'' = None \<and>
   snd (render_matches [0, 1, 2] ''q'' found) 2 ''path'' = None \<and>
   snd (render_matches [0, 1, 2] ''q'' found) 2 ''line_nr'' = Some (VInt 3) \<and>
   snd (render_matches [0, 1, 2] ''q'' found) 3 ''path'' = Some (VStr ''a'')"
proof -
  have d: "distinct [0, 1, 2 :: nat]" by simp
  have k: "\<forall>a\<in>set [0, 1, 2]. {''path'', ''line_nr'', ''col_nr'', ''content''} \<subseteq> dom (found a)"
    by (simp add: found_def dict_of_match_def)
  obtain rendered h' where r: "render_matches [0, 1, 2] ''q'' found = (Inr rendered, h')"
    using render_matches_returns [OF d k, of "''q''"] by (elim exE) (rule that)
  have n: "Inr rendered \<noteq> Inl (KeyError ''path'')" by simp
  have e: "h' = (\<lambda>a. if a \<in> set [0, 1, 2] then (found a)(''path'' := None) else found a)"
    using render_matches_pops_path [OF r n] by (rule conjunct1)
  show ?thesis
    unfolding r snd_conv e by (simp add: found_def dict_of_match_def m_at_def)
qed

end
